theory Spec2Isabelle
  imports Complex_Main "HOL-Library.Sublist"
begin

section \<open>Text primitives of the JavaScript runtime\<close>

text \<open>
  A JavaScript string is a sequence of UTF-16 code units and \<open>length\<close> counts code units.
  The model uses \<open>string\<close>, one \<open>char\<close> per code unit, which covers the texts whose code
  units are below 256 (Latin-1).  In that range the regular expression class \<open>\s\<close> and
  \<open>String.prototype.trim\<close> agree on the white space: TAB, LF, VT, FF, CR, SPACE and NBSP.
\<close>

definition is_space :: "char \<Rightarrow> bool" where
  "is_space c = (c = CHR 0x09 \<or> c = CHR 0x0A \<or> c = CHR 0x0B \<or> c = CHR 0x0C \<or> c = CHR 0x0D
     \<or> c = CHR '' '' \<or> c = CHR 0xA0)"

text \<open>\<open>s.trim()\<close>: white space removed at both ends.\<close>

definition trim :: "string \<Rightarrow> string" where
  "trim s = rev (dropWhile is_space (rev (dropWhile is_space s)))"

text \<open>
  \<open>text.split(/\s+/)\<close>: the pieces between the maximal runs of white space.  A run at the
  start or at the end of the text leaves an empty piece there, and the empty text gives the
  single piece \<open>""\<close>.  \<open>cur\<close> holds the current piece, reversed.
\<close>

function split_ws_aux :: "string \<Rightarrow> string \<Rightarrow> string list" where
  "split_ws_aux cur [] = [rev cur]"
| "split_ws_aux cur (c # cs) =
     (if is_space c then rev cur # split_ws_aux [] (dropWhile is_space cs)
      else split_ws_aux (c # cur) cs)"
  by pat_completeness auto
termination
  by (relation "measure (\<lambda>(cur, text). length text)")
     (auto simp: le_imp_less_Suc length_dropWhile_le)

definition split_ws :: "string \<Rightarrow> string list" where
  "split_ws text = split_ws_aux [] text"

section \<open>Token estimation (summarization lambda)\<close>

text \<open>
  \<open>estimateTokens\<close>: \<open>Math.ceil(text.split(/\s+/).length * 1.33)\<close>.  The model takes the
  product in the reals.  The source takes it in doubles, which gives the same ceiling for
  every string a runtime can hold: the double nearest to \<open>1.33\<close> is too large by less than
  \<open>10\<^sup>-\<^sup>1\<^sup>6\<close>, so a product that is an integer in the reals is off by less than half a
  unit in the last place and rounds to that integer, and any other product is at least
  \<open>0.01\<close> away from the next integer, far more than the rounding error.
\<close>

definition estimateTokens :: "string \<Rightarrow> nat" where
  "estimateTokens text = nat \<lceil>real (length (split_ws text)) * 1.33\<rceil>"

text \<open>
  The number of pieces that cutting the text at every maximal run of white space gives,
  empty pieces counted: one more than there are runs.  \<open>ws_runs prev text\<close> counts the runs
  that start inside \<open>text\<close>, \<open>prev\<close> telling whether the character before it is white
  space.
\<close>

fun ws_runs :: "bool \<Rightarrow> string \<Rightarrow> nat" where
  "ws_runs prev [] = 0"
| "ws_runs prev (c # cs) = (if is_space c \<and> \<not> prev then 1 else 0) + ws_runs (is_space c) cs"

definition pieceCount :: "string \<Rightarrow> nat" where
  "pieceCount text = ws_runs False text + 1"

text \<open>
  The word count in the words of the specification: the number of words of the text, a word
  being a maximal run of characters that are no white space.  \<open>word_starts prev text\<close>
  counts the words that start inside \<open>text\<close>; a word starts at a character that is no white
  space and stands at the start of the text or behind white space.
\<close>

fun word_starts :: "bool \<Rightarrow> string \<Rightarrow> nat" where
  "word_starts prev [] = 0"
| "word_starts prev (c # cs) =
     (if \<not> is_space c \<and> prev then 1 else 0) + word_starts (is_space c) cs"

definition wordCount :: "string \<Rightarrow> nat" where
  "wordCount text = word_starts True text"

section \<open>Segmentation: shared pieces\<close>

record chunk =
  chunkName :: string
  chunkContent :: string

text \<open>Template literals print a number in decimal.\<close>

definition digit_char :: "nat \<Rightarrow> char" where
  "digit_char d = ''0123456789'' ! d"

fun show_nat :: "nat \<Rightarrow> string" where
  "show_nat n = (if n < 10 then [digit_char n] else show_nat (n div 10) @ [digit_char (n mod 10)])"

declare show_nat.simps [simp del]

text \<open>\<open>text.slice(a, b)\<close> for \<open>0 \<le> a\<close> and \<open>0 \<le> b\<close>: empty when \<open>b \<le> a\<close>, cut at the end of the text.\<close>

definition slice :: "string \<Rightarrow> nat \<Rightarrow> nat \<Rightarrow> string" where
  "slice text a b = take (b - a) (drop a text)"

text \<open>\<open>group.join(' ')\<close>.\<close>

fun join_space :: "string list \<Rightarrow> string" where
  "join_space [] = []"
| "join_space [s] = s"
| "join_space (s # t # ss) = s @ CHR '' '' # join_space (t # ss)"

text \<open>
  \<open>text.match(/[^.!?]*[.!?]/g) || [text]\<close>.  Each match runs from the end of the match
  before it up to and including the next \<open>.\<close>, \<open>!\<close> or \<open>?\<close>; what follows the last
  of them is in no match.  Without any match the result is \<open>null\<close> and the whole text stands
  as the only sentence.  \<open>cur\<close> holds the current match, reversed.
\<close>

definition is_terminator :: "char \<Rightarrow> bool" where
  "is_terminator c = (c = CHR ''.'' \<or> c = CHR ''!'' \<or> c = CHR ''?'')"

fun match_sentences :: "string \<Rightarrow> string \<Rightarrow> string list" where
  "match_sentences cur [] = []"
| "match_sentences cur (c # cs) =
     (if is_terminator c then rev (c # cur) # match_sentences [] cs
      else match_sentences (c # cur) cs)"

definition sentences_of :: "string \<Rightarrow> string list" where
  "sentences_of text = (case match_sentences [] text of [] \<Rightarrow> [text] | s # ss \<Rightarrow> s # ss)"

section \<open>Sentence grouping (\<open>fallbackChunking\<close>, and the loop of the flat \<open>smartChunkText\<close>)\<close>

text \<open>
  The variables of the loop.  Both copies of the loop differ only in the name they give a
  chunk, \<open>`${baseName}.${sectionNumber}`\<close> or \<open>`Section ${sectionNumber}`\<close>, which is the
  parameter \<open>mkName\<close>.
\<close>

record group_state =
  chunks :: "chunk list"
  currentChunk :: string
  sectionNumber :: nat
  sentenceGroup :: "string list"

definition group_init :: group_state where
  "group_init = \<lparr>chunks = [], currentChunk = [], sectionNumber = 1, sentenceGroup = []\<rparr>"

definition save_chunk :: "(nat \<Rightarrow> string) \<Rightarrow> group_state \<Rightarrow> group_state" where
  "save_chunk mkName st =
     st\<lparr>chunks := chunks st @
            [\<lparr>chunkName = mkName (sectionNumber st), chunkContent = trim (currentChunk st)\<rparr>],
        sectionNumber := sectionNumber st + 1\<rparr>"

definition group_step :: "(nat \<Rightarrow> string) \<Rightarrow> nat \<Rightarrow> group_state \<Rightarrow> string \<Rightarrow> group_state" where
  "group_step mkName maxChunkSize st sentence =
     (let grp = sentenceGroup st @ [sentence] in
      if 4 \<le> length grp \<or> maxChunkSize < length (currentChunk st) + length sentence then
        (let groupContent = join_space grp;
             st1 = (if maxChunkSize < length (currentChunk st) + length groupContent
                    then (save_chunk mkName st)\<lparr>currentChunk := []\<rparr>
                    else st)
         in st1\<lparr>currentChunk := currentChunk st1 @ groupContent @ '' '', sentenceGroup := []\<rparr>)
      else st\<lparr>sentenceGroup := grp\<rparr>)"

definition group_sentences :: "(nat \<Rightarrow> string) \<Rightarrow> nat \<Rightarrow> string \<Rightarrow> chunk list" where
  "group_sentences mkName maxChunkSize text =
     (let st = foldl (group_step mkName maxChunkSize) group_init (sentences_of text)
      in if 0 < length (currentChunk st) then chunks (save_chunk mkName st) else chunks st)"

definition fallbackChunking :: "string \<Rightarrow> string \<Rightarrow> nat \<Rightarrow> chunk list" where
  "fallbackChunking text baseName maxChunkSize =
     group_sentences (\<lambda>n. baseName @ ''.'' @ show_nat n) maxChunkSize text"

text \<open>The flat variant (\<open>lambda/smart-chunk/index.ts\<close>): the same loop over the whole text.\<close>

definition smartChunkText_flat :: "string \<Rightarrow> chunk list" where
  "smartChunkText_flat text = group_sentences (\<lambda>n. ''Section '' @ show_nat n) 40000 text"

section \<open>Segmentation at chapter markers (the structural \<open>smartChunkText\<close>)\<close>

text \<open>
  \<open>Array.from(text.matchAll(/\bchapter\b/gi))\<close>, as the list of the indices of the matches.
  \<open>\b\<close> holds between a word character (\<open>[A-Za-z0-9_]\<close>) and a character that is none, the
  ends of the text counting as none.  Without the \<open>u\<close> flag the \<open>i\<close> flag equates a letter
  of the pattern with its upper case only.  After a match the search goes on behind it.
\<close>

definition upper_letters :: string where
  "upper_letters = ''ABCDEFGHIJKLMNOPQRSTUVWXYZ''"

definition lower_letters :: string where
  "lower_letters = ''abcdefghijklmnopqrstuvwxyz''"

definition is_word_char :: "char \<Rightarrow> bool" where
  "is_word_char c = (c \<in> set (upper_letters @ lower_letters @ ''0123456789_''))"

definition lower_char :: "char \<Rightarrow> char" where
  "lower_char c = (case map_of (zip upper_letters lower_letters) c of Some l \<Rightarrow> l | None \<Rightarrow> c)"

definition chapter_here :: "string \<Rightarrow> bool" where
  "chapter_here r = (map lower_char (take 7 r) = ''chapter''
     \<and> (case drop 7 r of [] \<Rightarrow> True | c # _ \<Rightarrow> \<not> is_word_char c))"

text \<open>
  \<open>i\<close> is the index of the head of the text that is left, \<open>prevw\<close> tells whether the
  character before it is a word character, \<open>skip\<close> counts the characters of the last match
  that are still ahead.
\<close>

fun chapter_matches :: "nat \<Rightarrow> bool \<Rightarrow> nat \<Rightarrow> string \<Rightarrow> nat list" where
  "chapter_matches i prevw skip [] = []"
| "chapter_matches i prevw skip (c # cs) =
     (if 0 < skip then chapter_matches (i + 1) (is_word_char c) (skip - 1) cs
      else if \<not> prevw \<and> chapter_here (c # cs)
        then i # chapter_matches (i + 1) (is_word_char c) 6 cs
      else chapter_matches (i + 1) (is_word_char c) 0 cs)"

definition matchAll_chapter :: "string \<Rightarrow> nat list" where
  "matchAll_chapter text = chapter_matches 0 False 0 text"

record chapter_state =
  chunksC :: "chunk list"
  chapterNumber :: nat
  sectionNumberC :: nat
  lastIndex :: nat

definition chapter_name :: "nat \<Rightarrow> nat \<Rightarrow> string" where
  "chapter_name c s = ''Chapter '' @ show_nat c @ ''.'' @ show_nat s"

text \<open>
  The body of \<open>for (const [i, match] of matches.entries())\<close>: \<open>idx\<close> is \<open>match.index\<close> and
  \<open>rest\<close> holds the indices of the matches after it, so that \<open>matches[i + 1]?.index ??
  text.length\<close> is the head of \<open>rest\<close>, or the length of the text when \<open>rest\<close> is empty.
\<close>

definition chapter_step :: "string \<Rightarrow> nat \<Rightarrow> nat list \<Rightarrow> chapter_state \<Rightarrow> chapter_state" where
  "chapter_step text idx rest st =
     (let st0 = st\<lparr>chapterNumber := chapterNumber st + 1, sectionNumberC := 1\<rparr> in
      if lastIndex st0 < idx then
        (let chunkContent = trim (slice text (lastIndex st0) idx);
             st1 = (if 0 < lastIndex st0 \<and> chunkContent \<noteq> []
                    then st0\<lparr>chunksC := chunksC st0 @
                             [\<lparr>chunkName = chapter_name (chapterNumber st0 - 1) (sectionNumberC st0),
                               chunkContent = chunkContent\<rparr>],
                           sectionNumberC := sectionNumberC st0 + 1\<rparr>
                    else st0);
             nextIndex = (case rest of [] \<Rightarrow> length text | n # _ \<Rightarrow> n);
             chapterContent = trim (slice text idx nextIndex)
         in st1\<lparr>chunksC := chunksC st1 @
                   [\<lparr>chunkName = chapter_name (chapterNumber st1) 1,
                     chunkContent = chapterContent\<rparr>],
                lastIndex := nextIndex\<rparr>)
      else st0)"

fun chapter_loop :: "string \<Rightarrow> nat list \<Rightarrow> chapter_state \<Rightarrow> chapter_state" where
  "chapter_loop text [] st = st"
| "chapter_loop text (idx # rest) st = chapter_loop text rest (chapter_step text idx rest st)"

text \<open>The chunks before the size bound is applied (the first half of \<open>smartChunkText\<close>).\<close>

definition structural_chunks :: "string \<Rightarrow> chunk list" where
  "structural_chunks text =
     (case matchAll_chapter text of
        [] \<Rightarrow> [\<lparr>chunkName = ''Section 1.1'', chunkContent = text\<rparr>]
      | m0 # ms \<Rightarrow>
          (let prefixContent = trim (slice text 0 m0);
               pre = (if 0 < m0 \<and> prefixContent \<noteq> []
                      then [\<lparr>chunkName = ''Prefix 1.1'', chunkContent = prefixContent\<rparr>] else []);
               st = chapter_loop text (m0 # ms)
                      \<lparr>chunksC = pre, chapterNumber = 0, sectionNumberC = 1, lastIndex = 0\<rparr>;
               suffixContent = trim (slice text (lastIndex st) (length text))
           in if lastIndex st < length text \<and> suffixContent \<noteq> []
              then chunksC st @ [\<lparr>chunkName = ''Suffix '' @ show_nat (chapterNumber st + 1) @ ''.1'',
                                  chunkContent = suffixContent\<rparr>]
              else chunksC st))"

text \<open>
  The second half: a chunk longer than \<open>chunkSize\<close> is replaced by what \<open>fallbackChunking\<close>
  makes of it, any other chunk is kept as it is.
\<close>

definition bound_chunk :: "nat \<Rightarrow> chunk \<Rightarrow> chunk list" where
  "bound_chunk chunkSize c =
     (if chunkSize < length (chunkContent c)
      then fallbackChunking (chunkContent c) (chunkName c) chunkSize
      else [c])"

definition smartChunkText :: "string \<Rightarrow> chunk list" where
  "smartChunkText text = concat (map (bound_chunk 100000) (structural_chunks text))"

text \<open>
  The number of chunks when the loop over the markers ends in the state \<open>st\<close>: those made
  so far and the \<open>Suffix\<close> chunk, if one is due.  A marker is a position of the text that
  holds no white space.
\<close>

definition chunk_total :: "string \<Rightarrow> chapter_state \<Rightarrow> nat" where
  "chunk_total t st = length (chunksC st)
     + (if lastIndex st < length t \<and> trim (slice t (lastIndex st) (length t)) \<noteq> [] then 1 else 0)"

definition marker_ok :: "string \<Rightarrow> nat \<Rightarrow> bool" where
  "marker_ok t m = (m < length t \<and> \<not> is_space (t ! m))"

text \<open>
  A sentence group: up to four consecutive sentences, joined by single spaces.  \<open>lone_group m
  ss content\<close> says that \<open>content\<close> is one group of the sentences \<open>ss\<close>, trimmed, and that the
  group alone is longer than \<open>m\<close>.
\<close>

definition lone_group :: "nat \<Rightarrow> string list \<Rightarrow> string \<Rightarrow> bool" where
  "lone_group m ss content =
     (\<exists>g. g \<noteq> [] \<and> length g \<le> 4 \<and> sublist g ss \<and> m < length (join_space g)
          \<and> content = trim (join_space g))"

definition within_cap :: "nat \<Rightarrow> string list \<Rightarrow> string \<Rightarrow> bool" where
  "within_cap m ss content = (length content \<le> m \<or> lone_group m ss content)"

text \<open>A sentence of 10001 characters, and a text of four of them.\<close>

definition long_sentence :: string where
  "long_sentence = replicate 10000 CHR ''a'' @ ''.''"

definition long_text :: string where
  "long_text = long_sentence @ long_sentence @ long_sentence @ long_sentence"

text \<open>
  What holds of the loop variables after the sentences \<open>xs\<close>, a prefix of all the
  sentences \<open>ss\<close>, have been read.
\<close>

definition group_inv :: "nat \<Rightarrow> string list \<Rightarrow> string list \<Rightarrow> group_state \<Rightarrow> bool" where
  "group_inv m ss xs st =
     ((\<forall>c\<in>set (chunks st). within_cap m ss (chunkContent c))
      \<and> within_cap m ss (trim (currentChunk st))
      \<and> suffix (sentenceGroup st) xs \<and> length (sentenceGroup st) < 4)"


definition long_group :: string where
  "long_group = join_space [long_sentence, long_sentence, long_sentence, long_sentence]"

section \<open>Parsing the generation response (summarization lambda)\<close>

text \<open>
  What a function of the lambda can throw: \<open>new Error(message)\<close>, or the error of the HTTP
  client, which carries the status of the response when there is one.
\<close>

datatype error = Error string | AxiosError "nat option"






section \<open>Rate-limited summarization (summarization lambda)\<close>

definition MAX_TOKENS_PER_MINUTE :: nat where
  "MAX_TOKENS_PER_MINUTE = 30000"

text \<open>
  A request that was sent: when, with which estimate, and the value \<open>startTime\<close> had then
  (the budget window the request is counted in).
\<close>

record request =
  issuedAt :: nat
  tokens :: nat
  windowStart :: nat

text \<open>
  The variables of \<open>summarizeChunksWithRateLimit\<close>, together with the clock (\<open>Date.now()\<close>,
  in milliseconds) and the list of the requests sent so far.
\<close>

record 's limiter_state =
  summaries :: "'s list"
  tokensUsed :: nat
  startTime :: nat
  now :: nat
  issued :: "request list"

text \<open>
  The \<open>if\<close> at the head of the loop body: when the estimate does not fit into what is left
  of the budget, wait until 65 seconds have passed since \<open>startTime\<close> (no wait when they
  already have), then start a new window.
\<close>

definition throttle :: "nat \<Rightarrow> 's limiter_state \<Rightarrow> 's limiter_state" where
  "throttle estimatedTokens st =
     (if MAX_TOKENS_PER_MINUTE < tokensUsed st + estimatedTokens then
        (let elapsedTime = now st - startTime st;
             t = (if elapsedTime < 65000 then now st + (65000 - elapsedTime) else now st)
         in st\<lparr>tokensUsed := 0, startTime := t, now := t\<rparr>)
      else st)"

text \<open>Sending the request; it returns after \<open>d\<close> milliseconds.\<close>

definition send :: "nat \<Rightarrow> nat \<Rightarrow> 's limiter_state \<Rightarrow> 's limiter_state" where
  "send estimatedTokens d st =
     st\<lparr>issued := issued st @
            [\<lparr>issuedAt = now st, tokens = estimatedTokens, windowStart = startTime st\<rparr>],
        now := now st + d\<rparr>"

text \<open>
  The loop.  \<open>service i c\<close> is what the \<open>i\<close>-th call of \<open>summarizeChunk\<close> does with the chunk
  \<open>c\<close>: the time it takes and its outcome.  An error ends the loop; the result keeps the
  state for the sake of the requests sent until then.
\<close>

fun rate_loop :: "(nat \<Rightarrow> chunk \<Rightarrow> nat \<times> (error + 's)) \<Rightarrow> nat \<Rightarrow> chunk list \<Rightarrow> 's limiter_state
    \<Rightarrow> error option \<times> 's limiter_state" where
  "rate_loop service i [] st = (None, st)"
| "rate_loop service i (c # cs) st =
     (let estimatedTokens = estimateTokens (chunkContent c);
          st1 = throttle estimatedTokens st;
          st2 = send estimatedTokens (fst (service i c)) st1
      in case snd (service i c) of
           Inl e \<Rightarrow> (Some e, st2)
         | Inr summary \<Rightarrow>
             rate_loop service (i + 1) cs
               (st2\<lparr>summaries := summaries st2 @ [summary],
                    tokensUsed := tokensUsed st2 + estimatedTokens\<rparr>))"

definition summarizeChunksWithRateLimit ::
    "(nat \<Rightarrow> chunk \<Rightarrow> nat \<times> (error + 's)) \<Rightarrow> nat \<Rightarrow> chunk list \<Rightarrow> error option \<times> 's limiter_state" where
  "summarizeChunksWithRateLimit service t0 cs =
     rate_loop service 0 cs
       \<lparr>summaries = [], tokensUsed = 0, startTime = t0, now = t0, issued = []\<rparr>"

text \<open>
  The estimated tokens of the requests sent in the 65 seconds from \<open>t\<close> on, and of those
  counted in the budget window that started at \<open>w\<close>.
\<close>

definition rolling_tokens :: "request list \<Rightarrow> nat \<Rightarrow> nat" where
  "rolling_tokens rs t = sum_list (map tokens (filter (\<lambda>r. t \<le> issuedAt r \<and> issuedAt r < t + 65000) rs))"

definition window_tokens :: "request list \<Rightarrow> nat \<Rightarrow> nat" where
  "window_tokens rs w = sum_list (map tokens (filter (\<lambda>r. windowStart r = w) rs))"

text \<open>A text of \<open>n + 1\<close> words, and three chunks: two words, and twice 22554 words.\<close>

definition words_text :: "nat \<Rightarrow> string" where
  "words_text n = concat (replicate n ''a '') @ ''a''"

definition three_chunks :: "chunk list" where
  "three_chunks =
     [\<lparr>chunkName = ''Section 1'', chunkContent = ''a''\<rparr>,
      \<lparr>chunkName = ''Section 2'', chunkContent = words_text 22553\<rparr>,
      \<lparr>chunkName = ''Section 3'', chunkContent = words_text 22553\<rparr>]"

text \<open>A service that answers every request after one second.\<close>

definition one_second :: "nat \<Rightarrow> chunk \<Rightarrow> nat \<times> (error + unit)" where
  "one_second i c = (1000, Inr ())"

text \<open>
  What the requests sent so far satisfy: every budget window holds at most the budget, a
  request is sent no earlier than its window starts, and two different windows start at
  least 65 seconds apart.
\<close>

definition budget_kept :: "request list \<Rightarrow> bool" where
  "budget_kept rs =
     ((\<forall>w. window_tokens rs w \<le> MAX_TOKENS_PER_MINUTE)
      \<and> (\<forall>r\<in>set rs. windowStart r \<le> issuedAt r)
      \<and> (\<forall>r1\<in>set rs. \<forall>r2\<in>set rs.
            windowStart r1 < windowStart r2 \<longrightarrow> windowStart r1 + 65000 \<le> windowStart r2))"

text \<open>What holds of the loop variables at the head of the loop.\<close>

definition limiter_inv :: "'s limiter_state \<Rightarrow> bool" where
  "limiter_inv st =
     (startTime st \<le> now st
      \<and> tokensUsed st = window_tokens (issued st) (startTime st)
      \<and> budget_kept (issued st)
      \<and> (\<forall>r\<in>set (issued st).
            windowStart r = startTime st \<or> windowStart r + 65000 \<le> startTime st))"

text \<open>The requests \<open>summarizeChunksWithRateLimit\<close> sends, in the order it sends them.\<close>

definition issued_requests :: "(nat \<Rightarrow> chunk \<Rightarrow> nat \<times> (error + 's)) \<Rightarrow> nat \<Rightarrow> chunk list \<Rightarrow> request list" where
  "issued_requests service t0 cs = issued (snd (summarizeChunksWithRateLimit service t0 cs))"

section \<open>Properties of the token estimate\<close>

lemma ws_runs_True_False: "ws_runs True cs = ws_runs False (dropWhile is_space cs)"
proof (induction cs)
  case Nil
  show ?case by simp
next
  case (Cons c cs)
  show ?case
  proof (cases "is_space c")
    case True
    with Cons show ?thesis by simp
  next
    case False
    then show ?thesis by simp
  qed
qed

lemma length_split_ws_aux: "length (split_ws_aux cur t) = ws_runs False t + 1"
proof (induction cur t rule: split_ws_aux.induct)
  case (1 cur)
  show ?case by simp
next
  case (2 cur c cs)
  show ?case
  proof (cases "is_space c")
    case True
    with 2 show ?thesis by (simp add: ws_runs_True_False)
  next
    case False
    with 2 show ?thesis by simp
  qed
qed

lemma length_split_ws: "length (split_ws text) = pieceCount text"
  by (simp add: split_ws_def pieceCount_def length_split_ws_aux)

lemma neg_div_100: "- ((- x) div 100) = (x + 99) div (100::int)"
proof -
  define q where "q = (x + 99) div 100"
  define r where "r = (x + 99) mod 100"
  have e: "x + 99 = 100 * q + r" and r: "0 \<le> r" "r < 100"
    by (simp_all add: q_def r_def)
  have "- x = 100 * (- q) + (99 - r)" using e by simp
  moreover have "0 \<le> 99 - r" "99 - r < 100" using r by simp_all
  ultimately have "(- x) div 100 = - q"
    by (metis add.commute div_mult_self2 div_pos_pos_trivial add.right_neutral zero_neq_numeral)
  then show ?thesis by (simp add: q_def)
qed

lemma ceiling_133: "nat \<lceil>real w * 1.33\<rceil> = (133 * w + 99) div 100"
proof -
  have "\<lceil>real w * 1.33\<rceil> = \<lceil>real_of_int (133 * int w) / real_of_int 100\<rceil>"
    by (simp add: mult.commute)
  also have "\<dots> = - ((- (133 * int w)) div 100)"
    by (rule ceiling_divide_eq_div)
  also have "\<dots> = (133 * int w + 99) div 100"
    by (rule neg_div_100)
  finally have "\<lceil>real w * 1.33\<rceil> = int ((133 * w + 99) div 100)"
    by (simp add: zdiv_int)
  then show ?thesis by simp
qed

lemma estimateTokens_div: "estimateTokens text = (133 * pieceCount text + 99) div 100"
  by (simp only: estimateTokens_def length_split_ws ceiling_133)

text \<open>
  Runs of white space and words alternate, so their numbers differ by what stands at the two
  ends of the text.
\<close>

lemma runs_and_words:
  "ws_runs p t + (if p then 1 else 0)
   = word_starts p t + (if (if t = [] then p else is_space (last t)) then 1 else 0)"
proof (induction t arbitrary: p)
  case Nil
  show ?case by simp
next
  case (Cons c cs)
  from Cons [of "is_space c"] show ?case by (cases cs) auto
qed

lemma ws_runs_start:
  "ws_runs False t = ws_runs True t + (if t \<noteq> [] \<and> is_space (hd t) then 1 else 0)"
  by (cases t) simp_all

lemma pieceCount_wordCount:
  "pieceCount text = wordCount text
     + (if text \<noteq> [] \<and> is_space (hd text) then 1 else 0)
     + (if text = [] \<or> is_space (last text) then 1 else 0)"
proof -
  have "ws_runs True text + 1
        = word_starts True text + (if text = [] \<or> is_space (last text) then 1 else 0)"
    using runs_and_words [of True "text"] by auto
  then show ?thesis
    unfolding pieceCount_def wordCount_def ws_runs_start [of "text"] by simp
qed

text \<open>
  C8, as claimed: \<open>estimateTokens\<close> is the ceiling of 1.33 times the number of words of the
  text.  The empty text has no word and is estimated at 2 tokens; the text of the two words
  \<open>a\<close> and \<open>b\<close> with a space before and a line feed behind is estimated at 6 tokens, where
  the two words give 3.
\<close>

theorem C8_word_count_differs:
  "wordCount '''' = 0 \<and> estimateTokens '''' = 2
   \<and> estimateTokens '''' \<noteq> nat \<lceil>real (wordCount '''') * 1.33\<rceil>
   \<and> wordCount ('' a b'' @ [CHR 0x0A]) = 2 \<and> estimateTokens ('' a b'' @ [CHR 0x0A]) = 6
   \<and> estimateTokens ('' a b'' @ [CHR 0x0A])
       \<noteq> nat \<lceil>real (wordCount ('' a b'' @ [CHR 0x0A])) * 1.33\<rceil>"
proof -
  have w: "wordCount '''' = 0" "wordCount ('' a b'' @ [CHR 0x0A]) = 2"
    by (simp_all add: wordCount_def is_space_def)
  have e: "estimateTokens '''' = 2" "estimateTokens ('' a b'' @ [CHR 0x0A]) = 6"
    by (simp_all add: estimateTokens_div pieceCount_def is_space_def)
  have "nat \<lceil>real (0::nat) * 1.33\<rceil> = 0" "nat \<lceil>real (2::nat) * 1.33\<rceil> = 3"
    using ceiling_133 [of 0] ceiling_133 [of 2] by simp_all
  with w e show ?thesis by simp
qed

text \<open>
  C8, amended.  For every text, \<open>estimateTokens\<close> is the ceiling of 1.33 times the number
  of pieces that \<open>text.split(/\s+/)\<close> gives, empty pieces counted; in integers, 133 times
  that number, divided by 100 and rounded up.  The number of pieces is the number of words,
  plus one when the text starts with white space, plus one when the text is empty or ends
  with white space.  So the estimate is the ceiling of 1.33 times the word count for a text
  that is not empty and has no white space at either end.  The estimate is a function of
  the text alone.
\<close>

theorem C8_estimateTokens_pieces:
  "estimateTokens text = nat \<lceil>real (pieceCount text) * 1.33\<rceil>
   \<and> estimateTokens text = (133 * pieceCount text + 99) div 100
   \<and> pieceCount text = length (split_ws text)
   \<and> pieceCount text = wordCount text
        + (if text \<noteq> [] \<and> is_space (hd text) then 1 else 0)
        + (if text = [] \<or> is_space (last text) then 1 else 0)
   \<and> (text \<noteq> [] \<and> \<not> is_space (hd text) \<and> \<not> is_space (last text)
        \<longrightarrow> estimateTokens text = nat \<lceil>real (wordCount text) * 1.33\<rceil>)"
proof -
  have a: "estimateTokens text = (133 * pieceCount text + 99) div 100"
    by (rule estimateTokens_div)
  then have b: "estimateTokens text = nat \<lceil>real (pieceCount text) * 1.33\<rceil>"
    by (simp only: ceiling_133)
  have l: "pieceCount text = length (split_ws text)"
    by (simp only: length_split_ws)
  have c: "pieceCount text = wordCount text
        + (if text \<noteq> [] \<and> is_space (hd text) then 1 else 0)
        + (if text = [] \<or> is_space (last text) then 1 else 0)"
    by (rule pieceCount_wordCount)
  have d: "estimateTokens text = nat \<lceil>real (wordCount text) * 1.33\<rceil>"
    if "text \<noteq> [] \<and> \<not> is_space (hd text) \<and> \<not> is_space (last text)"
  proof -
    from c that have "pieceCount text = wordCount text" by simp
    with b show ?thesis by (simp only:)
  qed
  from a b l c d show ?thesis by blast
qed

theorem C8_estimateTokens_pieces_witness:
  "''Hello world'' \<noteq> [] \<and> \<not> is_space (hd ''Hello world'') \<and> \<not> is_space (last ''Hello world'')
   \<and> wordCount ''Hello world'' = 2
   \<and> estimateTokens ''Hello world'' = nat \<lceil>real (wordCount ''Hello world'') * 1.33\<rceil>
   \<and> estimateTokens ''Hello world'' = 3"
proof -
  have h: "''Hello world'' \<noteq> [] \<and> \<not> is_space (hd ''Hello world'')
      \<and> \<not> is_space (last ''Hello world'')"
    by (simp add: is_space_def)
  have w: "wordCount ''Hello world'' = 2"
    by (simp add: wordCount_def is_space_def)
  have e: "estimateTokens ''Hello world'' = 3"
    by (simp add: estimateTokens_div pieceCount_def is_space_def)
  from C8_estimateTokens_pieces [of "''Hello world''"] h
  have "estimateTokens ''Hello world'' = nat \<lceil>real (wordCount ''Hello world'') * 1.33\<rceil>"
    by blast
  with h w e show ?thesis by simp
qed

section \<open>Properties of the sentence grouping\<close>

lemma trim_snoc_space: "trim (xs @ '' '') = trim xs"
proof (cases "\<forall>x\<in>set xs. is_space x")
  case True
  then have a: "dropWhile is_space xs = []" by simp
  have "dropWhile is_space (xs @ '' '') = dropWhile is_space '' ''"
    using True by (intro dropWhile_append2) simp
  also have "\<dots> = []" by (simp add: is_space_def)
  finally have "dropWhile is_space (xs @ '' '') = []" .
  then show ?thesis unfolding trim_def by (simp only: a)
next
  case False
  then obtain x where "x \<in> set xs" "\<not> is_space x" by blast
  then have b: "dropWhile is_space (xs @ '' '') = dropWhile is_space xs @ '' ''"
    by (rule dropWhile_append1)
  have "is_space CHR '' ''" by (simp add: is_space_def)
  then show ?thesis unfolding trim_def b by simp
qed

lemma length_trim_le: "length (trim xs) \<le> length xs"
  unfolding trim_def
  by (metis length_rev length_dropWhile_le le_trans)

lemma trim_Nil: "trim [] = []"
  by (simp add: trim_def)

lemma group_inv_init: "group_inv m ss [] group_init"
  by (simp add: group_inv_def group_init_def within_cap_def trim_Nil)

lemma within_cap_group:
  assumes "g \<noteq> []" "length g \<le> 4" "sublist g ss"
  shows "within_cap m ss (trim (join_space g @ '' ''))"
proof (cases "m < length (join_space g)")
  case True
  with assms have "lone_group m ss (trim (join_space g))"
    unfolding lone_group_def by blast
  then show ?thesis by (simp add: within_cap_def trim_snoc_space)
next
  case False
  then have "length (trim (join_space g)) \<le> m"
    using length_trim_le [of "join_space g"] by simp
  then show ?thesis by (simp add: within_cap_def trim_snoc_space)
qed

lemma within_cap_append:
  assumes "length cur + length grp \<le> m"
  shows "within_cap m ss (trim (cur @ grp @ '' ''))"
proof -
  have "trim (cur @ grp @ '' '') = trim ((cur @ grp) @ '' '')" by simp
  also have "\<dots> = trim (cur @ grp)" by (rule trim_snoc_space)
  finally have "length (trim (cur @ grp @ '' '')) \<le> length (cur @ grp)"
    using length_trim_le [of "cur @ grp"] by simp
  with assms show ?thesis by (simp add: within_cap_def)
qed

lemma group_inv_step:
  assumes inv: "group_inv m ss xs st" and pre: "prefix (xs @ [s]) ss"
  shows "group_inv m ss (xs @ [s]) (group_step mk m st s)"
proof -
  let ?grp = "sentenceGroup st @ [s]"
  have suf: "suffix ?grp (xs @ [s])" using inv by (simp add: group_inv_def)
  then have sub: "sublist ?grp ss"
    using pre sublist_altdef by blast
  have len: "length ?grp \<le> 4" using inv by (simp add: group_inv_def)
  have grp_ok: "within_cap m ss (trim (join_space ?grp @ '' ''))"
    by (rule within_cap_group [OF _ len sub]) simp
  show ?thesis
  proof (cases "4 \<le> length ?grp \<or> m < length (currentChunk st) + length s")
    case False
    then show ?thesis
      using inv suf by (auto simp add: group_step_def Let_def group_inv_def)
  next
    case close: True
    show ?thesis
    proof (cases "m < length (currentChunk st) + length (join_space ?grp)")
      case True
      then show ?thesis
        using inv close grp_ok
        by (auto simp add: group_step_def Let_def group_inv_def save_chunk_def)
    next
      case False
      then have "within_cap m ss (trim (currentChunk st @ join_space ?grp @ '' ''))"
        by (intro within_cap_append) simp
      then show ?thesis
        using inv close False
        by (auto simp add: group_step_def Let_def group_inv_def)
    qed
  qed
qed

lemma group_inv_foldl:
  "prefix xs ss \<Longrightarrow> group_inv m ss xs (foldl (group_step mk m) group_init xs)"
proof (induction xs rule: rev_induct)
  case Nil
  show ?case by (simp add: group_inv_init)
next
  case (snoc s xs)
  then have "prefix xs ss" by (metis prefix_snocD strict_prefix_def)
  with snoc have "group_inv m ss xs (foldl (group_step mk m) group_init xs)" by simp
  with snoc.prems show ?case by (simp add: group_inv_step)
qed

lemma group_sentences_within_cap:
  assumes "c \<in> set (group_sentences mk m t)"
  shows "within_cap m (sentences_of t) (chunkContent c)"
proof -
  let ?ss = "sentences_of t"
  let ?st = "foldl (group_step mk m) group_init ?ss"
  have "group_inv m ?ss ?ss ?st" by (rule group_inv_foldl) simp
  with assms show ?thesis
    by (auto simp add: group_sentences_def Let_def group_inv_def save_chunk_def split: if_splits)
qed

lemma trim_id:
  assumes "xs \<noteq> []" "\<not> is_space (hd xs)" "\<not> is_space (last xs)"
  shows "trim xs = xs"
proof -
  have a: "dropWhile is_space xs = xs"
    using assms by (simp add: dropWhile_eq_self_iff)
  have "dropWhile is_space (rev xs) = rev xs"
    using assms by (simp add: dropWhile_eq_self_iff hd_rev)
  with a show ?thesis by (simp add: trim_def)
qed

lemma match_sentences_replicate:
  "\<not> is_terminator a \<Longrightarrow>
   match_sentences cur (replicate n a @ rest) = match_sentences (replicate n a @ cur) rest"
proof (induction n arbitrary: cur)
  case 0
  show ?case by simp
next
  case (Suc n)
  then show ?case by (simp add: replicate_app_Cons_same)
qed

lemma match_long_sentence:
  "match_sentences [] (long_sentence @ rest) = long_sentence # match_sentences [] rest"
proof -
  have "match_sentences [] (long_sentence @ rest)
        = match_sentences (replicate 10000 CHR ''a'') (CHR ''.'' # rest)"
    using match_sentences_replicate [of "CHR ''a''" "[]" 10000 "CHR ''.'' # rest"]
    by (simp add: long_sentence_def is_terminator_def)
  also have "\<dots> = long_sentence # match_sentences [] rest"
    by (simp add: long_sentence_def is_terminator_def)
  finally show ?thesis .
qed

lemma match_long_sentence_last: "match_sentences [] long_sentence = [long_sentence]"
  using match_long_sentence [of "[]"] by simp

lemma sentences_of_long_text:
  "sentences_of long_text = [long_sentence, long_sentence, long_sentence, long_sentence]"
proof -
  have "match_sentences [] long_text
        = [long_sentence, long_sentence, long_sentence, long_sentence]"
    unfolding long_text_def
    by (simp only: match_long_sentence match_long_sentence_last)
  then show ?thesis by (simp add: sentences_of_def)
qed

lemma length_long_sentence: "length long_sentence = 10001"
  by (simp add: long_sentence_def)

lemma long_sentence_ends:
  "long_sentence \<noteq> []" "hd long_sentence = CHR ''a''" "last long_sentence = CHR ''.''"
  by (simp_all add: long_sentence_def hd_append)

lemma trim_long_group: "trim (long_group @ '' '') = long_group"
proof -
  have "trim long_group = long_group"
    by (rule trim_id) (simp_all add: long_group_def long_sentence_ends hd_append is_space_def)
  then show ?thesis by (simp only: trim_snoc_space)
qed

lemma length_long_group: "length long_group = 40007"
  by (simp add: long_group_def length_long_sentence)

lemma show_nat_digit: "n < 10 \<Longrightarrow> show_nat n = [digit_char n]"
  by (simp add: show_nat.simps)

lemma flat_long_text:
  "smartChunkText_flat long_text =
     [\<lparr>chunkName = ''Section 1'', chunkContent = ''''\<rparr>,
      \<lparr>chunkName = ''Section 2'', chunkContent = long_group\<rparr>]"
proof -
  let ?step = "group_step (\<lambda>n. ''Section '' @ show_nat n) 40000"
  let ?g = "\<lambda>k. group_init\<lparr>sentenceGroup := replicate k long_sentence\<rparr>"
  let ?fin = "\<lparr>chunks = [\<lparr>chunkName = ''Section 1'', chunkContent = ''''\<rparr>],
      currentChunk = long_group @ '' '', sectionNumber = 2, sentenceGroup = []\<rparr>"
  have s1: "?step group_init long_sentence = ?g 1"
    by (simp add: group_step_def group_init_def length_long_sentence)
  have s2: "?step (?g 1) long_sentence = ?g 2"
    by (simp add: group_step_def group_init_def length_long_sentence numeral_2_eq_2)
  have s3: "?step (?g 2) long_sentence = ?g 3"
    by (simp add: group_step_def group_init_def length_long_sentence numeral_2_eq_2 numeral_3_eq_3)
  have j: "join_space (replicate 3 long_sentence @ [long_sentence]) = long_group"
    by (simp add: long_group_def numeral_3_eq_3)
  have s4: "?step (?g 3) long_sentence = ?fin"
    unfolding group_step_def Let_def
    by (simp add: j length_long_group group_init_def save_chunk_def trim_Nil show_nat_digit
        digit_char_def)
  have "foldl ?step group_init (sentences_of long_text) = ?fin"
    by (simp only: sentences_of_long_text foldl.simps s1 s2 s3 s4)
  then show ?thesis
    unfolding smartChunkText_flat_def group_sentences_def Let_def
    by (simp add: save_chunk_def trim_long_group show_nat_digit digit_char_def)
qed

section \<open>Properties of the segmentation at chapter markers\<close>

text \<open>
  The matches are found in increasing order, and each is a position of the text that holds
  the letter \<open>c\<close> or \<open>C\<close>.  When the first match is not at the start of the text, the
  loop makes one chunk for every match (the last of them may be the \<open>Suffix\<close> chunk), after
  the \<open>Prefix\<close> chunk if there is one.
\<close>

lemma chapter_here_not_space: "chapter_here (c # cs) \<Longrightarrow> \<not> is_space c"
proof
  assume h: "chapter_here (c # cs)" and s: "is_space c"
  from h have "lower_char c = CHR ''c''" by (simp add: chapter_here_def)
  with s show False
    by (auto simp add: is_space_def lower_char_def upper_letters_def lower_letters_def)
qed

lemma chapter_matches_props:
  "m \<in> set (chapter_matches i p k t) \<Longrightarrow> i \<le> m \<and> m < i + length t \<and> \<not> is_space (t ! (m - i))"
proof (induction i p k t rule: chapter_matches.induct)
  case (1 i prevw skip)
  then show ?case by simp
next
  case (2 i prevw skip c cs)
  show ?case
  proof (cases "m = i \<and> skip = 0 \<and> \<not> prevw \<and> chapter_here (c # cs)")
    case True
    then show ?thesis by (auto dest: chapter_here_not_space)
  next
    case False
    with 2 have "Suc i \<le> m \<and> m < Suc i + length cs \<and> \<not> is_space (cs ! (m - Suc i))"
      by (auto split: if_splits)
    then show ?thesis by (auto simp add: nth_Cons')
  qed
qed

lemma chapter_matches_sorted: "sorted_wrt (<) (chapter_matches i p k t)"
proof (induction i p k t rule: chapter_matches.induct)
  case (1 i prevw skip)
  show ?case by simp
next
  case (2 i prevw skip c cs)
  have "\<And>m p' k'. m \<in> set (chapter_matches (i + 1) p' k' cs) \<Longrightarrow> i < m"
    using chapter_matches_props by fastforce
  with 2 show ?case by auto
qed

lemma matchAll_chapter_props:
  "sorted_wrt (<) (matchAll_chapter t) \<and> (\<forall>m\<in>set (matchAll_chapter t). marker_ok t m)"
  using chapter_matches_sorted [of 0 False 0 t] chapter_matches_props [of _ 0 False 0 t]
  by (auto simp add: matchAll_chapter_def marker_ok_def)

lemma trim_nonempty: "xs \<noteq> [] \<Longrightarrow> \<not> is_space (hd xs) \<Longrightarrow> trim xs \<noteq> []"
proof -
  assume a: "xs \<noteq> []" "\<not> is_space (hd xs)"
  then have d: "dropWhile is_space xs = xs" by (simp add: dropWhile_eq_self_iff)
  have "\<exists>x\<in>set (rev xs). \<not> is_space x" using a by (cases xs) auto
  then have "dropWhile is_space (rev xs) \<noteq> []" by (simp add: dropWhile_eq_Nil_conv)
  with d show ?thesis by (simp add: trim_def)
qed

lemma trim_slice_nonempty:
  assumes "marker_ok t m" "m < n"
  shows "trim (slice t m n) \<noteq> []"
proof -
  from assms have "slice t m n = t ! m # take (n - m - 1) (drop (Suc m) t)"
    by (simp add: slice_def marker_ok_def Cons_nth_drop_Suc [symmetric] take_Cons')
  with assms show ?thesis by (simp add: trim_nonempty marker_ok_def)
qed


lemma chapter_step_skip:
  "lastIndex st = idx \<Longrightarrow>
   chunksC (chapter_step t idx rest st) = chunksC st \<and> lastIndex (chapter_step t idx rest st) = idx"
  by (simp add: chapter_step_def Let_def)

lemma chapter_step_push:
  assumes "lastIndex st < idx"
  shows "lastIndex (chapter_step t idx rest st) = (case rest of [] \<Rightarrow> length t | n # _ \<Rightarrow> n)
    \<and> length (chunksC (chapter_step t idx rest st))
        = length (chunksC st)
          + (if 0 < lastIndex st \<and> trim (slice t (lastIndex st) idx) \<noteq> [] then 2 else 1)"
  using assms by (simp add: chapter_step_def Let_def)

lemma chapter_loop_pending:
  "sorted_wrt (<) (idx # rest) \<Longrightarrow> \<forall>m\<in>set (idx # rest). marker_ok t m \<Longrightarrow>
   lastIndex st = idx \<Longrightarrow> 0 < idx \<Longrightarrow>
   chunk_total t (chapter_loop t (idx # rest) st) = length (chunksC st) + length (idx # rest)"
proof (induction "length rest" arbitrary: idx rest st rule: less_induct)
  case less
  define st0 where "st0 = chapter_step t idx rest st"
  have st0: "chunksC st0 = chunksC st" "lastIndex st0 = idx"
    using chapter_step_skip [OF less.prems(3)] by (simp_all add: st0_def)
  show ?case
  proof (cases rest)
    case Nil
    have "trim (slice t idx (length t)) \<noteq> []"
      using less.prems(2) by (intro trim_slice_nonempty) (simp_all add: marker_ok_def)
    moreover have "chapter_loop t (idx # rest) st = st0" by (simp add: Nil st0_def)
    ultimately show ?thesis
      using less.prems(2) st0 by (simp add: chunk_total_def marker_ok_def Nil)
  next
    case (Cons idx' rest')
    with less.prems have lt: "idx < idx'" by simp
    have pend: "trim (slice t idx idx') \<noteq> []"
      using less.prems(2) lt by (intro trim_slice_nonempty) simp_all
    define st2 where "st2 = chapter_step t idx' rest' st0"
    have "lastIndex st0 < idx'" using st0 lt by simp
    from chapter_step_push [OF this, of t rest'] pend less.prems(4) st0
    have st2: "lastIndex st2 = (case rest' of [] \<Rightarrow> length t | n # _ \<Rightarrow> n)"
      "length (chunksC st2) = length (chunksC st) + 2"
      by (simp_all add: st2_def)
    have loop: "chapter_loop t (idx # rest) st = chapter_loop t rest' st2"
      by (simp add: Cons st0_def st2_def)
    show ?thesis
    proof (cases rest')
      case Nil
      with st2 show ?thesis
        unfolding loop by (simp add: chunk_total_def Cons)
    next
      case (Cons idx'' rest'')
      have "chunk_total t (chapter_loop t (idx'' # rest'') st2)
            = length (chunksC st2) + length (idx'' # rest'')"
      proof (rule less.hyps)
        show "length rest'' < length rest" using Cons \<open>rest = idx' # rest'\<close> by simp
        show "sorted_wrt (<) (idx'' # rest'')"
          using less.prems(1) Cons \<open>rest = idx' # rest'\<close> by simp
        show "\<forall>m\<in>set (idx'' # rest''). marker_ok t m"
          using less.prems(2) Cons \<open>rest = idx' # rest'\<close> by simp
        show "lastIndex st2 = idx''" using Cons st2 by simp
        show "0 < idx''" using less.prems(1) Cons \<open>rest = idx' # rest'\<close> by auto
      qed
      with st2 show ?thesis
        unfolding loop by (simp add: Cons \<open>rest = idx' # rest'\<close>)
    qed
  qed
qed

lemma structural_chunks_count:
  assumes ms: "matchAll_chapter t = m0 # ms" and pos: "0 < m0"
  shows "length (structural_chunks t)
         = length (m0 # ms) + (if trim (slice t 0 m0) \<noteq> [] then 1 else 0)"
proof -
  from matchAll_chapter_props [of t] ms
  have sorted: "sorted_wrt (<) (m0 # ms)" and ok: "\<forall>m\<in>set (m0 # ms). marker_ok t m"
    by simp_all
  define pre where "pre = (if 0 < m0 \<and> trim (slice t 0 m0) \<noteq> []
      then [\<lparr>chunkName = ''Prefix 1.1'', chunkContent = trim (slice t 0 m0)\<rparr>] else [])"
  define st where "st = \<lparr>chunksC = pre, chapterNumber = 0, sectionNumberC = 1, lastIndex = 0\<rparr>"
  define st1 where "st1 = chapter_step t m0 ms st"
  have "lastIndex st < m0" using pos by (simp add: st_def)
  from chapter_step_push [OF this, of t ms]
  have st1: "lastIndex st1 = (case ms of [] \<Rightarrow> length t | n # _ \<Rightarrow> n)"
    "length (chunksC st1) = length pre + 1"
    by (simp_all add: st1_def st_def)
  have loop: "chapter_loop t (m0 # ms) st = chapter_loop t ms st1"
    by (simp add: st1_def)
  have total: "chunk_total t (chapter_loop t (m0 # ms) st) = length pre + length (m0 # ms)"
  proof (cases ms)
    case Nil
    with st1 show ?thesis unfolding loop by (simp add: chunk_total_def)
  next
    case (Cons m1 ms')
    have "chunk_total t (chapter_loop t (m1 # ms') st1) = length (chunksC st1) + length (m1 # ms')"
    proof (rule chapter_loop_pending)
      show "sorted_wrt (<) (m1 # ms')" using sorted Cons by simp
      show "\<forall>m\<in>set (m1 # ms'). marker_ok t m" using ok Cons by simp
      show "lastIndex st1 = m1" using Cons st1 by simp
      show "0 < m1" using sorted Cons pos by auto
    qed
    with st1 show ?thesis unfolding loop by (simp add: Cons)
  qed
  have "length (structural_chunks t) = chunk_total t (chapter_loop t (m0 # ms) st)"
    by (simp add: structural_chunks_def ms Let_def chunk_total_def st_def pre_def
        del: chapter_loop.simps)
  with total pos show ?thesis by (simp add: pre_def)
qed

section \<open>Properties of the response parsing and of the rate limiter\<close>





lemma ws_runs_words_text: "ws_runs p (words_text n) = n"
proof (induction n arbitrary: p)
  case 0
  show ?case by (simp add: words_text_def is_space_def)
next
  case (Suc n)
  have "words_text (Suc n) = CHR ''a'' # CHR '' '' # words_text n"
    by (simp add: words_text_def)
  with Suc show ?case by (simp add: is_space_def)
qed

lemma estimateTokens_words_text: "estimateTokens (words_text n) = (133 * (n + 1) + 99) div 100"
  by (simp add: estimateTokens_div pieceCount_def ws_runs_words_text)

lemma estimateTokens_big: "estimateTokens (words_text 22553) = 29997"
  by (simp add: estimateTokens_words_text)

lemma estimateTokens_a: "estimateTokens ''a'' = 2"
  by (simp add: estimateTokens_div pieceCount_def is_space_def)

lemma three_chunks_log:
  "issued (snd (summarizeChunksWithRateLimit one_second 0 three_chunks)) =
     [\<lparr>issuedAt = 0, tokens = 2, windowStart = 0\<rparr>,
      \<lparr>issuedAt = 1000, tokens = 29997, windowStart = 0\<rparr>,
      \<lparr>issuedAt = 65000, tokens = 29997, windowStart = 65000\<rparr>]"
  by (simp add: summarizeChunksWithRateLimit_def three_chunks_def one_second_def
      estimateTokens_big estimateTokens_a throttle_def send_def MAX_TOKENS_PER_MINUTE_def Let_def)

lemma window_tokens_snoc:
  "window_tokens (rs @ [r]) w = window_tokens rs w + (if windowStart r = w then tokens r else 0)"
  by (simp add: window_tokens_def)

lemma window_tokens_fresh: "\<forall>r\<in>set rs. windowStart r \<noteq> w \<Longrightarrow> window_tokens rs w = 0"
  by (induction rs) (simp_all add: window_tokens_def)

lemma throttle_inv:
  assumes inv: "limiter_inv st" and e: "e \<le> MAX_TOKENS_PER_MINUTE"
  shows "limiter_inv (throttle e st) \<and> tokensUsed (throttle e st) + e \<le> MAX_TOKENS_PER_MINUTE"
proof (cases "MAX_TOKENS_PER_MINUTE < tokensUsed st + e")
  case False
  with inv show ?thesis by (simp add: throttle_def)
next
  case True
  define t where "t = (if now st - startTime st < 65000
                       then now st + (65000 - (now st - startTime st)) else now st)"
  have st: "throttle e st = st\<lparr>tokensUsed := 0, startTime := t, now := t\<rparr>"
    using True by (simp add: throttle_def Let_def t_def)
  from inv have le: "startTime st \<le> now st" by (simp add: limiter_inv_def)
  then have t: "startTime st + 65000 \<le> t" unfolding t_def by arith
  from inv have old: "\<forall>r\<in>set (issued st).
      windowStart r = startTime st \<or> windowStart r + 65000 \<le> startTime st"
    by (simp add: limiter_inv_def)
  with t have far: "\<forall>r\<in>set (issued st). windowStart r + 65000 \<le> t" by fastforce
  then have "\<forall>r\<in>set (issued st). windowStart r \<noteq> t" by fastforce
  then have zero: "window_tokens (issued st) t = 0" by (rule window_tokens_fresh)
  from inv have "budget_kept (issued st)" by (simp add: limiter_inv_def)
  with zero far e show ?thesis
    unfolding st by (simp add: limiter_inv_def)
qed

lemma send_budget_kept:
  assumes inv: "limiter_inv st" and room: "tokensUsed st + e \<le> MAX_TOKENS_PER_MINUTE"
  shows "budget_kept (issued (send e d st))"
proof -
  let ?r = "\<lparr>issuedAt = now st, tokens = e, windowStart = startTime st\<rparr>"
  have log: "issued (send e d st) = issued st @ [?r]" by (simp add: send_def)
  from inv have bk: "budget_kept (issued st)" and le: "startTime st \<le> now st"
    and tu: "tokensUsed st = window_tokens (issued st) (startTime st)"
    and old: "\<forall>r\<in>set (issued st).
      windowStart r = startTime st \<or> windowStart r + 65000 \<le> startTime st"
    by (simp_all add: limiter_inv_def)
  have a: "window_tokens (issued st @ [?r]) w \<le> MAX_TOKENS_PER_MINUTE" for w
    using bk tu room by (auto simp add: window_tokens_snoc budget_kept_def)
  have b: "\<forall>r\<in>set (issued st @ [?r]). windowStart r \<le> issuedAt r"
    using bk le by (simp add: budget_kept_def)
  have c: "\<forall>r1\<in>set (issued st @ [?r]). \<forall>r2\<in>set (issued st @ [?r]).
            windowStart r1 < windowStart r2 \<longrightarrow> windowStart r1 + 65000 \<le> windowStart r2"
    using bk old by (fastforce simp add: budget_kept_def)
  from a b c show ?thesis unfolding log budget_kept_def by blast
qed

lemma account_inv:
  assumes inv: "limiter_inv st" and room: "tokensUsed st + e \<le> MAX_TOKENS_PER_MINUTE"
  shows "limiter_inv ((send e d st)\<lparr>summaries := summaries (send e d st) @ [s],
                                   tokensUsed := tokensUsed (send e d st) + e\<rparr>)"
proof -
  have bk: "budget_kept (issued (send e d st))" by (rule send_budget_kept [OF inv room])
  from inv have "startTime st \<le> now st"
    and "tokensUsed st = window_tokens (issued st) (startTime st)"
    and "\<forall>r\<in>set (issued st).
      windowStart r = startTime st \<or> windowStart r + 65000 \<le> startTime st"
    by (simp_all add: limiter_inv_def)
  with bk show ?thesis
    by (simp add: limiter_inv_def send_def window_tokens_snoc)
qed

lemma rate_loop_budget_kept:
  "limiter_inv st \<Longrightarrow> \<forall>c\<in>set cs. estimateTokens (chunkContent c) \<le> MAX_TOKENS_PER_MINUTE \<Longrightarrow>
   budget_kept (issued (snd (rate_loop service i cs st)))"
proof (induction cs arbitrary: i st)
  case Nil
  then show ?case by (simp add: limiter_inv_def)
next
  case (Cons c cs)
  let ?e = "estimateTokens (chunkContent c)"
  let ?st1 = "throttle ?e st"
  from Cons.prems have e: "?e \<le> MAX_TOKENS_PER_MINUTE" by simp
  from throttle_inv [OF Cons.prems(1) e]
  have inv1: "limiter_inv ?st1" and room: "tokensUsed ?st1 + ?e \<le> MAX_TOKENS_PER_MINUTE"
    by simp_all
  show ?case
  proof (cases "snd (service i c)")
    case (Inl err)
    then show ?thesis
      using send_budget_kept [OF inv1 room] by (simp add: Let_def)
  next
    case (Inr s)
    have "limiter_inv ((send ?e (fst (service i c)) ?st1)
            \<lparr>summaries := summaries (send ?e (fst (service i c)) ?st1) @ [s],
             tokensUsed := tokensUsed (send ?e (fst (service i c)) ?st1) + ?e\<rparr>)"
      by (rule account_inv [OF inv1 room])
    with Cons.IH Cons.prems(2) Inr show ?thesis by (simp add: Let_def)
  qed
qed

lemma limiter_inv_start:
  "limiter_inv \<lparr>summaries = [], tokensUsed = 0, startTime = t0, now = t0, issued = []\<rparr>"
  by (simp add: limiter_inv_def budget_kept_def window_tokens_def)

section \<open>Segmentation: the claims\<close>

lemmas eval_defs = smartChunkText_def structural_chunks_def chapter_step_def matchAll_chapter_def
  chapter_here_def
  is_word_char_def lower_char_def upper_letters_def lower_letters_def bound_chunk_def
  fallbackChunking_def smartChunkText_flat_def group_sentences_def group_step_def save_chunk_def
  group_init_def sentences_of_def is_terminator_def trim_def is_space_def slice_def
  chapter_name_def show_nat.simps digit_char_def Let_def

text \<open>
  C2.  The claim: with \<open>k \<ge> 1\<close> markers the structural strategy makes \<open>k\<close> chunks (one more
  for a non-empty prefix) whose contents together give the text back.  On a text that starts
  with the marker the loop leaves the first chapter out: three markers, two chunks, and the
  words \<open>chapter one\<close> are in neither.  (Where the first marker is not at the start,
  the number of chunks is the claimed one: \<open>structural_chunks_count\<close>.)
\<close>

theorem C2_marker_at_start_loses_chapter:
  "matchAll_chapter ''chapter one chapter two chapter three'' = [0, 12, 24]
   \<and> structural_chunks ''chapter one chapter two chapter three''
     = [\<lparr>chunkName = ''Chapter 2.1'', chunkContent = ''chapter two''\<rparr>,
        \<lparr>chunkName = ''Suffix 4.1'', chunkContent = ''chapter three''\<rparr>]"
  by (simp add: eval_defs)

text \<open>
  C3.  The claim: the text \<open>Chapter 1. Hello world. Chapter 2. Goodbye world.\<close> gives the two
  chunks \<open>Chapter 1.1\<close> and \<open>Chapter 2.1\<close>.  The code returns the second chunk only.
\<close>

theorem C3_scenario_returns_one_chunk:
  "smartChunkText ''Chapter 1. Hello world. Chapter 2. Goodbye world.''
     = [\<lparr>chunkName = ''Chapter 2.1'', chunkContent = ''Chapter 2. Goodbye world.''\<rparr>]"
  by (simp add: eval_defs)

text \<open>
  C4, as claimed: a chunk is longer than the size cap only when one sentence alone is.  In
  the flat variant four sentences of 10001 characters each make one group of 40007
  characters, which becomes a chunk of its own (after an empty chunk), although no sentence
  is longer than 40000.
\<close>

theorem C4_group_exceeds_cap:
  "smartChunkText_flat long_text =
     [\<lparr>chunkName = ''Section 1'', chunkContent = ''''\<rparr>,
      \<lparr>chunkName = ''Section 2'', chunkContent = long_group\<rparr>]
   \<and> length long_group = 40007
   \<and> sentences_of long_text = [long_sentence, long_sentence, long_sentence, long_sentence]
   \<and> length long_sentence = 10001"
  by (simp only: flat_long_text length_long_group sentences_of_long_text length_long_sentence)

text \<open>
  C4, amended.  Every chunk that \<open>fallbackChunking\<close>, the flat \<open>smartChunkText\<close> and the
  structural \<open>smartChunkText\<close> return is at most as long as the size cap (the parameter
  \<open>maxChunkSize\<close>, 40000 and 100000), unless its content is a single sentence group, up to
  four consecutive sentences joined by spaces and trimmed, that alone is longer than the cap.
\<close>

theorem C4_chunk_within_cap_or_lone_group:
  "(\<forall>c\<in>set (fallbackChunking text baseName m).
      length (chunkContent c) \<le> m \<or> lone_group m (sentences_of text) (chunkContent c))
   \<and> (\<forall>c\<in>set (smartChunkText_flat text).
      length (chunkContent c) \<le> 40000 \<or> lone_group 40000 (sentences_of text) (chunkContent c))
   \<and> (\<forall>c\<in>set (smartChunkText text).
      length (chunkContent c) \<le> 100000
      \<or> (\<exists>p\<in>set (structural_chunks text).
            lone_group 100000 (sentences_of (chunkContent p)) (chunkContent c)))"
proof (intro conjI ballI)
  fix c assume "c \<in> set (fallbackChunking text baseName m)"
  then show "length (chunkContent c) \<le> m \<or> lone_group m (sentences_of text) (chunkContent c)"
    unfolding fallbackChunking_def
    using group_sentences_within_cap within_cap_def by blast
next
  fix c assume "c \<in> set (smartChunkText_flat text)"
  then show "length (chunkContent c) \<le> 40000
      \<or> lone_group 40000 (sentences_of text) (chunkContent c)"
    unfolding smartChunkText_flat_def
    using group_sentences_within_cap within_cap_def by blast
next
  fix c assume "c \<in> set (smartChunkText text)"
  then obtain p where p: "p \<in> set (structural_chunks text)" and c: "c \<in> set (bound_chunk 100000 p)"
    by (auto simp add: smartChunkText_def)
  show "length (chunkContent c) \<le> 100000
      \<or> (\<exists>p\<in>set (structural_chunks text).
            lone_group 100000 (sentences_of (chunkContent p)) (chunkContent c))"
  proof (cases "100000 < length (chunkContent p)")
    case True
    with c have "c \<in> set (group_sentences (\<lambda>n. chunkName p @ ''.'' @ show_nat n) 100000 (chunkContent p))"
      by (simp add: bound_chunk_def fallbackChunking_def)
    then have "within_cap 100000 (sentences_of (chunkContent p)) (chunkContent c)"
      by (rule group_sentences_within_cap)
    with p show ?thesis unfolding within_cap_def by blast
  next
    case False
    with c show ?thesis by (simp add: bound_chunk_def)
  qed
qed

theorem C4_chunk_within_cap_witness:
  "\<lparr>chunkName = ''S.2'', chunkContent = ''Aaaaaaaa.''\<rparr> \<in> set (fallbackChunking ''Aaaaaaaa. B.'' ''S'' 5)
   \<and> \<not> length ''Aaaaaaaa.'' \<le> (5::nat)
   \<and> lone_group 5 (sentences_of ''Aaaaaaaa. B.'') ''Aaaaaaaa.''
   \<and> \<lparr>chunkName = ''Section 1'', chunkContent = ''A.  B.  C.  D.''\<rparr> \<in> set (smartChunkText_flat ''A. B. C. D.'')
   \<and> length ''A.  B.  C.  D.'' \<le> (40000::nat)"
proof -
  have a: "\<lparr>chunkName = ''S.2'', chunkContent = ''Aaaaaaaa.''\<rparr>
      \<in> set (fallbackChunking ''Aaaaaaaa. B.'' ''S'' 5)"
    by (simp add: eval_defs)
  have b: "\<lparr>chunkName = ''Section 1'', chunkContent = ''A.  B.  C.  D.''\<rparr>
      \<in> set (smartChunkText_flat ''A. B. C. D.'')"
    by (simp add: eval_defs)
  from C4_chunk_within_cap_or_lone_group [of "''Aaaaaaaa. B.''" "''S''" 5]
    C4_chunk_within_cap_or_lone_group [of "''A. B. C. D.''"]
  have "length (chunkContent \<lparr>chunkName = ''S.2'', chunkContent = ''Aaaaaaaa.''\<rparr>) \<le> 5
      \<or> lone_group 5 (sentences_of ''Aaaaaaaa. B.'')
           (chunkContent \<lparr>chunkName = ''S.2'', chunkContent = ''Aaaaaaaa.''\<rparr>)"
    and "length (chunkContent \<lparr>chunkName = ''Section 1'', chunkContent = ''A.  B.  C.  D.''\<rparr>) \<le> 40000
      \<or> lone_group 40000 (sentences_of ''A. B. C. D.'')
           (chunkContent \<lparr>chunkName = ''Section 1'', chunkContent = ''A.  B.  C.  D.''\<rparr>)"
    using a b by blast+
  then show ?thesis using a b by simp
qed

text \<open>
  C5.  The claim: the sentences left over at the end are flushed as a last chunk, and no
  words are lost.  The loop ends with the fifth sentence still in \<open>sentenceGroup\<close>, which
  nothing reads after the loop: \<open>E.\<close> is in no chunk.
\<close>

theorem C5_trailing_sentence_dropped:
  "smartChunkText_flat ''A. B. C. D. E.''
     = [\<lparr>chunkName = ''Section 1'', chunkContent = ''A.  B.  C.  D.''\<rparr>]"
  by (simp add: eval_defs)

text \<open>
  C6.  The claim: no chunk with empty content is returned, and the empty text gives no
  chunk.  The structural \<open>smartChunkText\<close> answers the empty text with one chunk of empty
  content.
\<close>

theorem C6_empty_text_gives_empty_chunk:
  "smartChunkText '''' = [\<lparr>chunkName = ''Section 1.1'', chunkContent = ''''\<rparr>]"
  by (simp add: eval_defs)

text \<open>
  C7, as claimed: the fallback, run again on one of its sub-chunks with the same cap, gives
  the sub-chunk back unchanged.  With the cap 14 the sub-chunk \<open>A.  B.  C.  D.\<close> comes back
  as two chunks, the first empty and the second with wider gaps.
\<close>

theorem C7_rerun_changes_subchunk:
  "fallbackChunking ''A. B. C. D.'' ''S'' 14
     = [\<lparr>chunkName = ''S.1'', chunkContent = ''A.  B.  C.  D.''\<rparr>]
   \<and> fallbackChunking ''A.  B.  C.  D.'' ''S.1'' 14
     = [\<lparr>chunkName = ''S.1.1'', chunkContent = ''''\<rparr>,
        \<lparr>chunkName = ''S.1.2'', chunkContent = ''A.   B.   C.   D.''\<rparr>]"
  by (simp add: eval_defs)

text \<open>
  C7, amended.  The size-bounding step of \<open>smartChunkText\<close> calls the fallback only for a
  chunk that is longer than the cap.  Run again on a sub-chunk of the fallback, with the same
  cap, that step returns the sub-chunk unchanged as a single chunk, unless the sub-chunk is a
  lone sentence group longer than the cap.
\<close>

theorem C7_bound_step_keeps_subchunk:
  "\<forall>c\<in>set (fallbackChunking text baseName m).
     bound_chunk m c = [c] \<or> lone_group m (sentences_of text) (chunkContent c)"
proof
  fix c assume "c \<in> set (fallbackChunking text baseName m)"
  then have "within_cap m (sentences_of text) (chunkContent c)"
    unfolding fallbackChunking_def by (rule group_sentences_within_cap)
  then show "bound_chunk m c = [c] \<or> lone_group m (sentences_of text) (chunkContent c)"
    by (auto simp add: within_cap_def bound_chunk_def)
qed

theorem C7_bound_step_witness:
  "\<lparr>chunkName = ''S.1'', chunkContent = ''A.  B.  C.  D.''\<rparr> \<in> set (fallbackChunking ''A. B. C. D.'' ''S'' 14)
   \<and> bound_chunk 14 \<lparr>chunkName = ''S.1'', chunkContent = ''A.  B.  C.  D.''\<rparr>
       = [\<lparr>chunkName = ''S.1'', chunkContent = ''A.  B.  C.  D.''\<rparr>]"
proof -
  have a: "\<lparr>chunkName = ''S.1'', chunkContent = ''A.  B.  C.  D.''\<rparr>
      \<in> set (fallbackChunking ''A. B. C. D.'' ''S'' 14)"
    by (simp add: eval_defs)
  from C7_bound_step_keeps_subchunk [rule_format, OF a]
  show ?thesis using a by (simp add: bound_chunk_def)
qed

section \<open>Summarization: the claims\<close>

text \<open>
  C1, as claimed: in every rolling window of 65 seconds the estimates of the requests sent
  add up to at most 30000.  Three chunks of 2, 29997 and 29997 estimated tokens and a
  service that answers after a second: the requests go out at 0 s, 1 s and 65 s, and the 65
  seconds from 1 s on hold 59994 tokens.
\<close>

theorem C1_rolling_window_exceeded:
  "issued_requests one_second 0 three_chunks =
     [\<lparr>issuedAt = 0, tokens = 2, windowStart = 0\<rparr>,
      \<lparr>issuedAt = 1000, tokens = 29997, windowStart = 0\<rparr>,
      \<lparr>issuedAt = 65000, tokens = 29997, windowStart = 65000\<rparr>]
   \<and> rolling_tokens (issued_requests one_second 0 three_chunks) 1000 = 59994
   \<and> \<not> rolling_tokens (issued_requests one_second 0 three_chunks) 1000 \<le> MAX_TOKENS_PER_MINUTE"
  unfolding issued_requests_def
  by (simp add: three_chunks_log rolling_tokens_def MAX_TOKENS_PER_MINUTE_def)

text \<open>
  C1, amended.  The controller counts in fixed budget windows: a window starts when
  \<open>tokensUsed\<close> is reset, and two windows start at least 65 seconds apart.  When no chunk
  alone is estimated above \<open>MAX_TOKENS_PER_MINUTE\<close>, the estimates of the requests counted
  in one window add up to at most \<open>MAX_TOKENS_PER_MINUTE\<close>, whatever the chunks are and
  however long the service takes, also when a request fails.
\<close>

theorem C1_budget_per_fixed_window:
  assumes "\<forall>c\<in>set cs. estimateTokens (chunkContent c) \<le> MAX_TOKENS_PER_MINUTE"
  shows "window_tokens (issued_requests service t0 cs) w \<le> MAX_TOKENS_PER_MINUTE
    \<and> (\<forall>r\<in>set (issued_requests service t0 cs). windowStart r \<le> issuedAt r)
    \<and> (\<forall>r1\<in>set (issued_requests service t0 cs). \<forall>r2\<in>set (issued_requests service t0 cs).
          windowStart r1 < windowStart r2 \<longrightarrow> windowStart r1 + 65000 \<le> windowStart r2)"
proof -
  have "budget_kept (issued_requests service t0 cs)"
    unfolding issued_requests_def summarizeChunksWithRateLimit_def
    using limiter_inv_start assms by (rule rate_loop_budget_kept)
  then show ?thesis unfolding budget_kept_def by blast
qed

theorem C1_budget_per_fixed_window_witness:
  "map (\<lambda>c. estimateTokens (chunkContent c)) three_chunks = [2, 29997, 29997]
   \<and> window_tokens (issued_requests one_second 0 three_chunks) 0 = 29999
   \<and> window_tokens (issued_requests one_second 0 three_chunks) 0 \<le> MAX_TOKENS_PER_MINUTE
   \<and> window_tokens (issued_requests one_second 0 three_chunks) 65000 = 29997
   \<and> \<lparr>issuedAt = 0, tokens = 2, windowStart = 0\<rparr> \<in> set (issued_requests one_second 0 three_chunks)
   \<and> \<lparr>issuedAt = 65000, tokens = 29997, windowStart = 65000\<rparr>
        \<in> set (issued_requests one_second 0 three_chunks)"
proof -
  have h: "\<forall>c\<in>set three_chunks. estimateTokens (chunkContent c) \<le> MAX_TOKENS_PER_MINUTE"
    by (simp add: three_chunks_def estimateTokens_big estimateTokens_a MAX_TOKENS_PER_MINUTE_def)
  have l: "issued_requests one_second 0 three_chunks =
     [\<lparr>issuedAt = 0, tokens = 2, windowStart = 0\<rparr>,
      \<lparr>issuedAt = 1000, tokens = 29997, windowStart = 0\<rparr>,
      \<lparr>issuedAt = 65000, tokens = 29997, windowStart = 65000\<rparr>]"
    unfolding issued_requests_def by (rule three_chunks_log)
  from C1_budget_per_fixed_window [OF h, of one_second 0 0]
  have "window_tokens (issued_requests one_second 0 three_chunks) 0 \<le> MAX_TOKENS_PER_MINUTE"
    by blast
  moreover have "map (\<lambda>c. estimateTokens (chunkContent c)) three_chunks = [2, 29997, 29997]"
    by (simp add: three_chunks_def estimateTokens_big estimateTokens_a)
  ultimately show ?thesis by (simp add: l window_tokens_def)
qed





end
